theory Spec2Isabelle
  imports Main
begin

section \<open>Data model (types.ts)\<close>

text \<open>
  The twelve pitch classes of \<^verbatim>\<open>MUSICAL_KEYS\<close>, in the order of the source array
  (\<^verbatim>\<open>'C', 'C#', 'D', 'D#', 'E', 'F', 'F#', 'G', 'G#', 'A', 'A#', 'B'\<close>); a sharp is
  written \<open>s\<close>.
\<close>

datatype MusicalKey =
  KeyC | KeyCs | KeyD | KeyDs | KeyE | KeyF | KeyFs | KeyG | KeyGs | KeyA | KeyAs | KeyB

datatype KeyMode = Major | Minor

text \<open>
  The interface \<^verbatim>\<open>Song\<close>. The numeric fields are JavaScript numbers; the model takes
  them over the integers, which is the domain the application stores in them. The fields
  \<^verbatim>\<open>id\<close> and \<^verbatim>\<open>notes\<close> are named \<open>id_song\<close> and \<open>notes_song\<close>, since \<open>id\<close> is the
  identity function of HOL and \<open>notes\<close> a keyword of Isabelle; \<^verbatim>\<open>type\<close> of a warning is
  named \<open>type_warning\<close>.
\<close>

record Song =
  id_song :: string
  title :: string
  shortName :: string
  durationSeconds :: int
  bpm :: int
  musicalKey :: MusicalKey
  keyMode :: KeyMode
  energyLevel :: int
  notes_song :: string
  lightsNotes :: string
  createdAt :: int
  updatedAt :: int


datatype FlowWarningType = KeyClash | EnergyDrop | SlowSequence

record FlowWarning =
  type_warning :: FlowWarningType
  songIndex :: nat
  message :: string

section \<open>Key clash detection (types.ts)\<close>

fun KEY_POSITIONS :: "MusicalKey \<Rightarrow> int" where
  "KEY_POSITIONS KeyC = 0"
| "KEY_POSITIONS KeyG = 1"
| "KEY_POSITIONS KeyD = 2"
| "KEY_POSITIONS KeyA = 3"
| "KEY_POSITIONS KeyE = 4"
| "KEY_POSITIONS KeyB = 5"
| "KEY_POSITIONS KeyFs = 6"
| "KEY_POSITIONS KeyCs = 7"
| "KEY_POSITIONS KeyGs = 8"
| "KEY_POSITIONS KeyDs = 9"
| "KEY_POSITIONS KeyAs = 10"
| "KEY_POSITIONS KeyF = 11"

definition areKeysClashing :: "MusicalKey \<Rightarrow> KeyMode \<Rightarrow> MusicalKey \<Rightarrow> KeyMode \<Rightarrow> bool" where
  "areKeysClashing key1 mode1 key2 mode2 =
     (if key1 = key2 \<and> mode1 = mode2 then False
      else
        let pos1 = KEY_POSITIONS key1;
            pos2 = KEY_POSITIONS key2;
            distance = min \<bar>pos1 - pos2\<bar> (12 - \<bar>pos1 - pos2\<bar>)
        in distance > 4)"

text \<open>
  The circular distance in the words of the specification,
  \<open>min(|pos(A) - pos(B)|, 12 - |pos(A) - pos(B)|)\<close>, to compare the code with.
\<close>

definition circularDistance :: "MusicalKey \<Rightarrow> MusicalKey \<Rightarrow> int" where
  "circularDistance a b =
     min \<bar>KEY_POSITIONS a - KEY_POSITIONS b\<bar> (12 - \<bar>KEY_POSITIONS a - KEY_POSITIONS b\<bar>)"

section \<open>Time status (store.ts)\<close>



section \<open>Flow warnings (store.ts)\<close>

text \<open>The string literals of the keys and modes, as template strings print them.\<close>

fun keyName :: "MusicalKey \<Rightarrow> string" where
  "keyName KeyC = ''C''"
| "keyName KeyCs = ''C#''"
| "keyName KeyD = ''D''"
| "keyName KeyDs = ''D#''"
| "keyName KeyE = ''E''"
| "keyName KeyF = ''F''"
| "keyName KeyFs = ''F#''"
| "keyName KeyG = ''G''"
| "keyName KeyGs = ''G#''"
| "keyName KeyA = ''A''"
| "keyName KeyAs = ''A#''"
| "keyName KeyB = ''B''"

fun modeName :: "KeyMode \<Rightarrow> string" where
  "modeName Major = ''Major''"
| "modeName Minor = ''Minor''"

text \<open>An integer as a template string prints it: decimal digits, with a minus sign.\<close>

fun decimal :: "nat \<Rightarrow> string" where
  "decimal n =
     (if n < 10 then [''0123456789'' ! n]
      else decimal (n div 10) @ [''0123456789'' ! (n mod 10)])"

declare decimal.simps [simp del]

definition numberToString :: "int \<Rightarrow> string" where
  "numberToString n = (if n < 0 then ''-'' @ decimal (nat (- n)) else decimal (nat n))"

text \<open>The arrow U+2192 of the messages, in UTF-8.\<close>

definition arrow :: string where
  "arrow = [char_of (226::nat), char_of (134::nat), char_of (146::nat)]"

definition keyClashWarning :: "nat \<Rightarrow> Song \<Rightarrow> Song \<Rightarrow> FlowWarning" where
  "keyClashWarning i prevSong currentSong =
     \<lparr>type_warning = KeyClash, songIndex = i,
      message = ''Key clash: '' @ keyName (musicalKey prevSong) @ '' '' @ modeName (keyMode prevSong)
        @ '' '' @ arrow @ '' '' @ keyName (musicalKey currentSong) @ '' ''
        @ modeName (keyMode currentSong)\<rparr>"

definition energyDropWarning :: "nat \<Rightarrow> Song \<Rightarrow> Song \<Rightarrow> FlowWarning" where
  "energyDropWarning i prevSong currentSong =
     \<lparr>type_warning = EnergyDrop, songIndex = i,
      message = ''Energy drop: '' @ numberToString (energyLevel prevSong) @ '' '' @ arrow @ '' ''
        @ numberToString (energyLevel currentSong)\<rparr>"

definition slowSequenceWarning :: "nat \<Rightarrow> FlowWarning" where
  "slowSequenceWarning i =
     \<lparr>type_warning = SlowSequence, songIndex = i,
      message = ''3+ consecutive slow songs (BPM < 90)''\<rparr>"

text \<open>
  \<^verbatim>\<open>songIds.map(id => songs.find(s => s.id === id)).filter(s => s !== undefined)\<close>:
  \<open>find\<close> returns the first song of the catalog with the id, or nothing.
\<close>

definition resolveSongs :: "string list \<Rightarrow> Song list \<Rightarrow> Song list" where
  "resolveSongs songIds songs =
     map the (filter (\<lambda>s. s \<noteq> None) (map (\<lambda>i. find (\<lambda>s. id_song s = i) songs) songIds))"

text \<open>
  The first loop, \<^verbatim>\<open>for (let i = 1; i < setlistSongs.length; i++)\<close>, as a function of the
  loop variable and of the array of warnings built so far. It is entered at \<open>i = 1\<close>, so
  \<open>i - 1\<close> is the index before \<open>i\<close>.
\<close>

function pairLoop :: "Song list \<Rightarrow> nat \<Rightarrow> FlowWarning list \<Rightarrow> FlowWarning list" where
  "pairLoop setlistSongs i warnings =
     (if i < length setlistSongs then
        let prevSong = setlistSongs ! (i - 1);
            currentSong = setlistSongs ! i;
            warnings1 =
              (if areKeysClashing (musicalKey prevSong) (keyMode prevSong)
                    (musicalKey currentSong) (keyMode currentSong)
               then warnings @ [keyClashWarning i prevSong currentSong] else warnings);
            energyDrop = energyLevel prevSong - energyLevel currentSong;
            warnings2 =
              (if energyDrop > 2
               then warnings1 @ [energyDropWarning i prevSong currentSong] else warnings1)
        in pairLoop setlistSongs (i + 1) warnings2
      else warnings)"
  by pat_completeness auto
termination
  by (relation "measure (\<lambda>(setlistSongs, i, warnings). length setlistSongs - i)") auto

declare pairLoop.simps [simp del]

text \<open>
  The inner loop of the second pass,
  \<^verbatim>\<open>while (i + 1 < setlistSongs.length && setlistSongs[i + 1].bpm < 90) i++\<close>; it returns
  the final \<open>i\<close>.
\<close>

function skipSlow :: "Song list \<Rightarrow> nat \<Rightarrow> nat" where
  "skipSlow setlistSongs i =
     (if i + 1 < length setlistSongs \<and> bpm (setlistSongs ! (i + 1)) < 90
      then skipSlow setlistSongs (i + 1) else i)"
  by pat_completeness auto
termination
  by (relation "measure (\<lambda>(setlistSongs, i). length setlistSongs - i)") auto

declare skipSlow.simps [simp del]

text \<open>
  The second loop, \<^verbatim>\<open>for (let i = 0; i < setlistSongs.length; i++)\<close>, as a function of
  \<open>i\<close>, \<open>slowCount\<close> and the warnings so far. After a warning the inner loop moves \<open>i\<close>
  and the loop's own \<open>i++\<close> follows.
\<close>

function slowLoop :: "Song list \<Rightarrow> nat \<Rightarrow> nat \<Rightarrow> FlowWarning list \<Rightarrow> FlowWarning list" where
  "slowLoop setlistSongs i slowCount warnings =
     (if i < length setlistSongs then
        (if bpm (setlistSongs ! i) < 90 then
           (if slowCount + 1 \<ge> 3 then
              slowLoop setlistSongs (skipSlow setlistSongs i + 1) (slowCount + 1)
                (warnings @ [slowSequenceWarning i])
            else slowLoop setlistSongs (i + 1) (slowCount + 1) warnings)
         else slowLoop setlistSongs (i + 1) 0 warnings)
      else warnings)"
  by pat_completeness auto
termination
proof (relation "measure (\<lambda>(setlistSongs, i, slowCount, warnings). length setlistSongs - i)")
  have skip_ge: "i \<le> skipSlow ss i" for ss i
    by (induction ss i rule: skipSlow.induct) (subst skipSlow.simps, auto)
  fix setlistSongs :: "Song list" and i slowCount :: nat and warnings :: "FlowWarning list"
  assume "i < length setlistSongs"
  with skip_ge [of i setlistSongs]
  show "((setlistSongs, skipSlow setlistSongs i + 1, slowCount + 1,
          warnings @ [slowSequenceWarning i]), setlistSongs, i, slowCount, warnings)
        \<in> measure (\<lambda>(setlistSongs, i, slowCount, warnings). length setlistSongs - i)"
    by simp
qed auto

declare slowLoop.simps [simp del]

definition calculateFlowWarnings :: "string list \<Rightarrow> Song list \<Rightarrow> FlowWarning list" where
  "calculateFlowWarnings songIds songs =
     (let setlistSongs = resolveSongs songIds songs;
          warnings = pairLoop setlistSongs 1 [];
          warnings = slowLoop setlistSongs 0 0 warnings
      in warnings)"

section \<open>Descriptions of the two passes\<close>

text \<open>
  The warnings of the first pass at the adjacent pair \<open>(i - 1, i)\<close>: the key clash, if any,
  before the energy drop, if any.
\<close>

definition pairWarnings :: "Song list \<Rightarrow> nat \<Rightarrow> FlowWarning list" where
  "pairWarnings ss i =
     (if areKeysClashing (musicalKey (ss ! (i - 1))) (keyMode (ss ! (i - 1)))
           (musicalKey (ss ! i)) (keyMode (ss ! i))
      then [keyClashWarning i (ss ! (i - 1)) (ss ! i)] else [])
     @ (if energyLevel (ss ! (i - 1)) - energyLevel (ss ! i) > 2
        then [energyDropWarning i (ss ! (i - 1)) (ss ! i)] else [])"

text \<open>A song of the sequence is slow when its tempo is below 90.\<close>

definition slow :: "Song list \<Rightarrow> nat \<Rightarrow> bool" where
  "slow ss k = (bpm (ss ! k) < 90)"

text \<open>
  Position \<open>k\<close> is the third song of a maximal run of slow songs: the songs \<open>k - 2\<close>,
  \<open>k - 1\<close> and \<open>k\<close> are slow and the run starts at \<open>k - 2\<close>, which is the first song
  or follows a song that is not slow. A maximal run of three or more slow songs has
  exactly one such position, and a shorter run has none.
\<close>

definition thirdOfSlowRun :: "Song list \<Rightarrow> nat \<Rightarrow> bool" where
  "thirdOfSlowRun ss k =
     (2 \<le> k \<and> slow ss (k - 2) \<and> slow ss (k - 1) \<and> slow ss k \<and> (k = 2 \<or> \<not> slow ss (k - 3)))"

text \<open>
  The invariant of the second loop at its head: either \<open>slowCount\<close> is at most 2 and counts
  the slow songs just before \<open>i\<close>, or a warning has been given and the rest of the run
  skipped, so that the song at \<open>i\<close>, if any, is not slow.
\<close>

definition slowInv :: "Song list \<Rightarrow> nat \<Rightarrow> nat \<Rightarrow> bool" where
  "slowInv ss i c =
     ((c \<le> 2 \<and> c \<le> i \<and> (\<forall>j. i - c \<le> j \<and> j < i \<longrightarrow> slow ss j) \<and> (c < i \<longrightarrow> \<not> slow ss (i - c - 1)))
      \<or> (3 \<le> c \<and> (i < length ss \<longrightarrow> \<not> slow ss i)))"

text \<open>
  The songs \<open>a\<close> to \<open>b\<close> (both included) are a maximal run of slow songs: all of them are
  slow, no slow song comes just before \<open>a\<close> and none just after \<open>b\<close>.
\<close>

definition maximalSlowRun :: "Song list \<Rightarrow> nat \<Rightarrow> nat \<Rightarrow> bool" where
  "maximalSlowRun ss a b =
     (a \<le> b \<and> b < length ss \<and> (\<forall>k\<in>{a..b}. slow ss k)
      \<and> (a = 0 \<or> \<not> slow ss (a - 1)) \<and> (b + 1 = length ss \<or> \<not> slow ss (b + 1)))"

text \<open>
  The order of the first pass: an earlier position first and, at the same position, the
  key clash before the energy drop.
\<close>

definition pairwiseOrder :: "FlowWarning \<Rightarrow> FlowWarning \<Rightarrow> bool" where
  "pairwiseOrder v w =
     (songIndex v < songIndex w
      \<or> (songIndex v = songIndex w \<and> type_warning v = KeyClash \<and> type_warning w = EnergyDrop))"

section \<open>Example data\<close>

text \<open>A song with the given id, tempo, key, mode and energy level.\<close>

definition exampleSong :: "string \<Rightarrow> int \<Rightarrow> MusicalKey \<Rightarrow> KeyMode \<Rightarrow> int \<Rightarrow> Song" where
  "exampleSong i b k m e =
     \<lparr>id_song = i, title = i, shortName = i, durationSeconds = 180, bpm = b, musicalKey = k,
      keyMode = m, energyLevel = e, notes_song = [], lightsNotes = [], createdAt = 0,
      updatedAt = 0\<rparr>"

text \<open>
  A catalog with the given tempos, the ids being \<open>0\<close>, \<open>1\<close>, \<open>2\<close>, ... in decimal, and the
  ordering that lists the first \<open>n\<close> of these ids.
\<close>

definition exampleCatalog :: "int list \<Rightarrow> Song list" where
  "exampleCatalog bpms =
     map (\<lambda>(k, b). exampleSong (decimal k) b KeyC Major 3) (enumerate 0 bpms)"

definition exampleIds :: "nat \<Rightarrow> string list" where
  "exampleIds n = map decimal [0..<n]"

text \<open>
  A catalog of four slow songs and an ordering of them with the stale id \<open>X\<close>: a key
  clash and an energy drop between the first two songs, a key clash between the second and
  the third, an energy drop between the last two.
\<close>

definition exampleSetlist :: "Song list" where
  "exampleSetlist =
     [exampleSong ''A'' 60 KeyC Major 5,
      exampleSong ''B'' 60 KeyFs Major 1,
      exampleSong ''C'' 60 KeyG Major 5,
      exampleSong ''D'' 60 KeyG Major 2]"

definition exampleOrdering :: "string list" where
  "exampleOrdering = [''A'', ''X'', ''B'', ''C'', ''D'']"

section \<open>Properties of the key classifier\<close>

lemma KEY_POSITIONS_range: "0 \<le> KEY_POSITIONS k \<and> KEY_POSITIONS k \<le> 11"
  by (cases k) simp_all

lemma circularDistance_range: "0 \<le> circularDistance a b \<and> circularDistance a b \<le> 6"
  using KEY_POSITIONS_range [of a] KEY_POSITIONS_range [of b]
  unfolding circularDistance_def by linarith

lemma areKeysClashing_distance: "areKeysClashing a ma b mb = (circularDistance a b > 4)"
  by (simp add: areKeysClashing_def circularDistance_def Let_def)

text \<open>
  Claim C9. A (key, mode) pair never clashes with itself: for every key \<open>k\<close> and mode
  \<open>m\<close>, \<open>areKeysClashing k m k m\<close> is false.
\<close>

theorem areKeysClashing_same_pair: "areKeysClashing k m k m = False"
  by (simp add: areKeysClashing_def)

text \<open>
  Claim C8. The classifier is symmetric: exchanging the two (key, mode) pairs does not
  change the answer.
\<close>

theorem areKeysClashing_symmetric: "areKeysClashing a ma b mb = areKeysClashing b mb a ma"
  by (auto simp add: areKeysClashing_def Let_def abs_minus_commute)

text \<open>
  Claim C3. With the positions C=0, G=1, D=2, A=3, E=4, B=5, F#=6, C#=7, G#=8, D#=9, A#=10,
  F=11, \<open>areKeysClashing\<close> is true exactly when the circular distance
  \<open>min(|pos(A) - pos(B)|, 12 - |pos(A) - pos(B)|)\<close> exceeds 4, that is, when it is 5 or 6.
  The modes have no part in it: the equation holds for every two pairs (for identical
  pairs as well, where the distance is 0), and changing the modes does not change the
  answer. C and G are at distance 1 and C and D at distance 2, which is no clash; C and B
  are at distance 5 and C and F# at distance 6, which is a clash.
\<close>

theorem areKeysClashing_circle_of_fifths:
  "map KEY_POSITIONS [KeyC, KeyG, KeyD, KeyA, KeyE, KeyB, KeyFs, KeyCs, KeyGs, KeyDs, KeyAs, KeyF]
     = [0, 1, 2, 3, 4, 5, 6, 7, 8, 9, 10, 11]
   \<and> areKeysClashing a ma b mb = (circularDistance a b > 4)
   \<and> areKeysClashing a ma b mb = (circularDistance a b = 5 \<or> circularDistance a b = 6)
   \<and> areKeysClashing a ma b mb = areKeysClashing a ma' b mb'
   \<and> circularDistance KeyC KeyG = 1 \<and> areKeysClashing KeyC ma KeyG mb = False
   \<and> circularDistance KeyC KeyD = 2 \<and> areKeysClashing KeyC ma KeyD mb = False
   \<and> circularDistance KeyC KeyB = 5 \<and> areKeysClashing KeyC ma KeyB mb = True
   \<and> circularDistance KeyC KeyFs = 6 \<and> areKeysClashing KeyC ma KeyFs mb = True"
proof -
  have "(circularDistance a b > 4) = (circularDistance a b = 5 \<or> circularDistance a b = 6)"
    using circularDistance_range [of a b] by arith
  moreover have "circularDistance KeyC KeyG = 1" "circularDistance KeyC KeyD = 2"
    "circularDistance KeyC KeyB = 5" "circularDistance KeyC KeyFs = 6"
    by (simp_all add: circularDistance_def)
  ultimately show ?thesis
    by (simp add: areKeysClashing_distance)
qed

section \<open>Properties of the time status\<close>



section \<open>The two loops\<close>

lemma pairLoop_eq:
  "pairLoop ss i ws = ws @ concat (map (pairWarnings ss) [i..<length ss])"
proof (induction ss i ws rule: pairLoop.induct)
  case (1 ss i ws)
  show ?case
  proof (cases "i < length ss")
    case True
    have step: "pairLoop ss i ws = pairLoop ss (i + 1) (ws @ pairWarnings ss i)"
      by (subst pairLoop.simps) (simp add: True Let_def pairWarnings_def [of ss i])
    have "pairLoop ss (i + 1) (ws @ pairWarnings ss i)
            = (ws @ pairWarnings ss i) @ concat (map (pairWarnings ss) [i + 1..<length ss])"
      using "1.IH" [OF True refl refl refl refl refl]
      by (auto simp add: pairWarnings_def [of ss i] split: if_splits)
    with step True show ?thesis
      by (simp add: upt_conv_Cons)
  next
    case False
    then show ?thesis by (subst pairLoop.simps) simp
  qed
qed

lemma skipSlow_props:
  "i < length ss \<Longrightarrow>
     i \<le> skipSlow ss i \<and> skipSlow ss i < length ss
     \<and> (\<forall>j. i < j \<and> j \<le> skipSlow ss i \<longrightarrow> slow ss j)
     \<and> (skipSlow ss i + 1 < length ss \<longrightarrow> \<not> slow ss (skipSlow ss i + 1))"
proof (induction ss i rule: skipSlow.induct)
  case (1 ss i)
  show ?case
  proof (cases "i + 1 < length ss \<and> bpm (ss ! (i + 1)) < 90")
    case True
    then have IH: "i + 1 \<le> skipSlow ss (i + 1) \<and> skipSlow ss (i + 1) < length ss
       \<and> (\<forall>j. i + 1 < j \<and> j \<le> skipSlow ss (i + 1) \<longrightarrow> slow ss j)
       \<and> (skipSlow ss (i + 1) + 1 < length ss \<longrightarrow> \<not> slow ss (skipSlow ss (i + 1) + 1))"
      using "1.IH" by simp
    have eq: "skipSlow ss i = skipSlow ss (i + 1)"
      using True by (subst skipSlow.simps) simp
    have "slow ss j" if "i < j" "j \<le> skipSlow ss (i + 1)" for j
    proof (cases "j = i + 1")
      case True
      with \<open>i + 1 < length ss \<and> bpm (ss ! (i + 1)) < 90\<close> show ?thesis by (simp add: slow_def)
    next
      case False
      with that IH show ?thesis by simp
    qed
    with IH show ?thesis unfolding eq by auto
  next
    case False
    then have eq: "skipSlow ss i = i" by (subst skipSlow.simps) auto
    from False "1.prems" show ?thesis unfolding eq by (auto simp: slow_def)
  qed
qed


lemma filter_upt_empty:
  "(\<And>k. a \<le> k \<Longrightarrow> k < b \<Longrightarrow> \<not> P k) \<Longrightarrow> filter P [a..<b] = []"
  by (simp add: filter_empty_conv)

lemma upt_split: "a \<le> b \<Longrightarrow> b \<le> c \<Longrightarrow> [a..<c] = [a..<b] @ [b..<c]"
  by (metis le_Suc_ex upt_add_eq_append)

lemma slowLoop_eq:
  "slowInv ss i c \<Longrightarrow>
     slowLoop ss i c ws
       = ws @ map slowSequenceWarning (filter (thirdOfSlowRun ss) [i..<length ss])"
proof (induction ss i c ws rule: slowLoop.induct)
  case (1 ss i c ws)
  let ?n = "length ss"
  show ?case
  proof (cases "i < ?n")
    case False
    then show ?thesis by (subst slowLoop.simps) simp
  next
    case inb: True
    show ?thesis
    proof (cases "bpm (ss ! i) < 90")
      case notslow: False
      have inv': "slowInv ss (i + 1) 0"
        using notslow by (simp add: slowInv_def slow_def)
      have "\<not> thirdOfSlowRun ss i"
        using notslow by (simp add: thirdOfSlowRun_def slow_def)
      moreover have "slowLoop ss i c ws = slowLoop ss (i + 1) 0 ws"
        using inb notslow by (subst slowLoop.simps) simp
      ultimately show ?thesis
        using "1.IH"(3) [OF inb notslow inv'] inb by (simp add: upt_conv_Cons)
    next
      case isslow: True
      from "1.prems" inb isslow
      have small: "c \<le> 2" "c \<le> i" "\<And>j. i - c \<le> j \<Longrightarrow> j < i \<Longrightarrow> slow ss j"
          "c < i \<Longrightarrow> \<not> slow ss (i - c - 1)"
        by (auto simp: slowInv_def slow_def)
      show ?thesis
      proof (cases "3 \<le> c + 1")
        case False
        have inv': "slowInv ss (i + 1) (c + 1)"
          unfolding slowInv_def
        proof (intro disjI1 conjI allI impI)
          show "c + 1 \<le> 2" using False by simp
          show "c + 1 \<le> i + 1" using small(2) by simp
          show "slow ss j" if "i + 1 - (c + 1) \<le> j \<and> j < i + 1" for j
          proof (cases "j = i")
            case True
            then show ?thesis using isslow by (simp add: slow_def)
          next
            case False
            with that show ?thesis using small(3) [of j] by simp
          qed
          show "\<not> slow ss (i + 1 - (c + 1) - 1)" if "c + 1 < i + 1"
            using that small(4) by simp
        qed
        have "\<not> thirdOfSlowRun ss i"
        proof
          assume t: "thirdOfSlowRun ss i"
          then have "2 \<le> i" "slow ss (i - 2)" "slow ss (i - 1)" "i = 2 \<or> \<not> slow ss (i - 3)"
            by (auto simp: thirdOfSlowRun_def)
          from False have "c = 0 \<or> c = 1" by arith
          then show False
          proof
            assume "c = 0"
            with small(4) \<open>2 \<le> i\<close> \<open>slow ss (i - 1)\<close> show False by simp
          next
            assume "c = 1"
            with small(4) \<open>2 \<le> i\<close> \<open>slow ss (i - 2)\<close> show False
              by (simp add: numeral_2_eq_2)
          qed
        qed
        moreover have "slowLoop ss i c ws = slowLoop ss (i + 1) (c + 1) ws"
          using inb isslow False by (subst slowLoop.simps) simp
        ultimately show ?thesis
          using "1.IH"(2) [OF inb isslow False inv'] inb by (simp add: upt_conv_Cons)
      next
        case three: True
        with small(1) have c2: "c = 2" by simp
        let ?e = "skipSlow ss i"
        from skipSlow_props [OF inb]
        have e: "i \<le> ?e" "?e < ?n" "\<And>j. i < j \<Longrightarrow> j \<le> ?e \<Longrightarrow> slow ss j"
          "?e + 1 < ?n \<Longrightarrow> \<not> slow ss (?e + 1)"
          by auto
        have inv': "slowInv ss (?e + 1) (c + 1)"
          using e(4) c2 by (simp add: slowInv_def)
        have i2: "2 \<le> i" using small(2) c2 by simp
        have run: "slow ss j" if "i - 2 \<le> j" "j \<le> ?e" for j
        proof -
          consider "j < i" | "j = i" | "i < j" by arith
          then show ?thesis
          proof cases
            case 1
            with that small(3) [of j] c2 show ?thesis by simp
          next
            case 2
            with isslow show ?thesis by (simp add: slow_def)
          next
            case 3
            with that e(3) show ?thesis by simp
          qed
        qed
        have third: "thirdOfSlowRun ss i"
        proof -
          have "i = 2 \<or> \<not> slow ss (i - 3)"
          proof (cases "i = 2")
            case False
            with i2 have "c < i" "i - c - 1 = i - 3" using c2 by simp_all
            with small(4) show ?thesis by simp
          qed simp
          moreover have "slow ss (i - 2)" "slow ss (i - 1)" "slow ss i"
            using run e(1) i2 by simp_all
          ultimately show ?thesis using i2 by (simp add: thirdOfSlowRun_def)
        qed
        have none: "filter (thirdOfSlowRun ss) [i + 1..<?e + 1] = []"
        proof (rule filter_upt_empty)
          fix k assume k: "i + 1 \<le> k" "k < ?e + 1"
          then have "slow ss (k - 3)" "k \<noteq> 2" using run [of "k - 3"] i2 by simp_all
          then show "\<not> thirdOfSlowRun ss k" by (simp add: thirdOfSlowRun_def)
        qed
        have "[i..<?n] = i # [i + 1..<?e + 1] @ [?e + 1..<?n]"
          using inb e(1,2) upt_split [of "i + 1" "?e + 1" ?n] by (simp add: upt_conv_Cons)
        then have filt: "filter (thirdOfSlowRun ss) [i..<?n]
            = i # filter (thirdOfSlowRun ss) [?e + 1..<?n]"
          using third none by simp
        have "slowLoop ss i c ws
            = slowLoop ss (?e + 1) (c + 1) (ws @ [slowSequenceWarning i])"
          using inb isslow three by (subst slowLoop.simps) simp
        then show ?thesis
          using "1.IH"(1) [OF inb isslow three inv'] filt by simp
      qed
    qed
  qed
qed

lemma slowInv_start: "slowInv ss 0 0"
  by (simp add: slowInv_def)

lemma calculateFlowWarnings_eq:
  "calculateFlowWarnings songIds songs =
     concat (map (pairWarnings (resolveSongs songIds songs)) [1..<length (resolveSongs songIds songs)])
     @ map slowSequenceWarning
         (filter (thirdOfSlowRun (resolveSongs songIds songs)) [0..<length (resolveSongs songIds songs)])"
  by (simp add: calculateFlowWarnings_def Let_def pairLoop_eq slowLoop_eq [OF slowInv_start])

lemma pairWarnings_member:
  "w \<in> set (pairWarnings ss i) \<Longrightarrow> songIndex w = i \<and> type_warning w \<noteq> SlowSequence"
  by (auto simp: pairWarnings_def keyClashWarning_def energyDropWarning_def split: if_splits)

lemma pairPass_member:
  "w \<in> set (concat (map (pairWarnings ss) [a..<b])) \<Longrightarrow>
     a \<le> songIndex w \<and> songIndex w < b \<and> type_warning w \<noteq> SlowSequence"
  by (auto dest: pairWarnings_member)

lemma slowPass_member:
  "w \<in> set (map slowSequenceWarning (filter (thirdOfSlowRun ss) [a..<b])) \<Longrightarrow>
     2 \<le> songIndex w \<and> a \<le> songIndex w \<and> songIndex w < b \<and> type_warning w = SlowSequence"
  by (auto simp: slowSequenceWarning_def thirdOfSlowRun_def)

lemma filter_slow_pairPass:
  "filter (\<lambda>w. type_warning w = SlowSequence) (concat (map (pairWarnings ss) [a..<b])) = []"
  by (auto simp: filter_empty_conv dest: pairWarnings_member)

lemma filter_slow_slowPass:
  "filter (\<lambda>w. type_warning w = SlowSequence) (map slowSequenceWarning ks) = map slowSequenceWarning ks"
  by (induction ks) (simp_all add: slowSequenceWarning_def)

lemma filter_notslow_pairPass:
  "filter (\<lambda>w. type_warning w \<noteq> SlowSequence) (concat (map (pairWarnings ss) [a..<b]))
     = concat (map (pairWarnings ss) [a..<b])"
  by (rule filter_True) (auto dest: pairWarnings_member)

lemma filter_notslow_slowPass:
  "filter (\<lambda>w. type_warning w \<noteq> SlowSequence) (map slowSequenceWarning ks) = []"
  by (induction ks) (simp_all add: slowSequenceWarning_def)

lemma concat_map_upt_single:
  assumes "a \<le> i" "i < b" "\<And>j. a \<le> j \<Longrightarrow> j < b \<Longrightarrow> j \<noteq> i \<Longrightarrow> g j = []"
  shows "concat (map g [a..<b]) = g i"
proof -
  have split: "[a..<b] = [a..<i] @ i # [Suc i..<b]"
    using assms(1,2) upt_split [of a i b] by (simp add: upt_conv_Cons)
  have before: "concat (map g [a..<i]) = []" using assms by simp
  have after: "concat (map g [Suc i..<b]) = []" using assms by simp
  show ?thesis unfolding split by (simp add: before after)
qed

lemma pairPass_at:
  "a \<le> i \<Longrightarrow> i < b \<Longrightarrow>
     filter (\<lambda>w. songIndex w = i) (concat (map (pairWarnings ss) [a..<b])) = pairWarnings ss i"
proof -
  assume ab: "a \<le> i" "i < b"
  have "filter (\<lambda>w. songIndex w = i) (concat (map (pairWarnings ss) [a..<b]))
          = concat (map (\<lambda>j. filter (\<lambda>w. songIndex w = i) (pairWarnings ss j)) [a..<b])"
    by (simp add: filter_concat comp_def)
  also have "\<dots> = filter (\<lambda>w. songIndex w = i) (pairWarnings ss i)"
    by (rule concat_map_upt_single [OF ab]) (auto simp: filter_empty_conv dest: pairWarnings_member)
  also have "\<dots> = pairWarnings ss i"
    by (rule filter_True) (auto dest: pairWarnings_member)
  finally show ?thesis .
qed

lemma sorted_wrt_concat_upt:
  assumes "\<And>i. sorted_wrt R (f i)"
      and "\<And>i j x y. i < j \<Longrightarrow> x \<in> set (f i) \<Longrightarrow> y \<in> set (f j) \<Longrightarrow> R x y"
  shows "sorted_wrt R (concat (map f [a..<b]))"
proof (induction b)
  case 0
  show ?case by simp
next
  case (Suc b)
  show ?case
  proof (cases "a \<le> b")
    case True
    then show ?thesis using Suc assms by (auto simp: sorted_wrt_append)
  next
    case False
    then show ?thesis by simp
  qed
qed

lemma thirdOfSlowRun_in_run:
  assumes "maximalSlowRun ss a b" "a \<le> k" "k \<le> b"
  shows "thirdOfSlowRun ss k = (k = a + 2)"
proof -
  from assms(1) have run: "\<And>j. a \<le> j \<Longrightarrow> j \<le> b \<Longrightarrow> slow ss j"
    and start: "a = 0 \<or> \<not> slow ss (a - 1)"
    by (auto simp: maximalSlowRun_def)
  consider "k = a" | "k = a + 1" | "k = a + 2" | "a + 3 \<le> k" using assms(2) by arith
  then show ?thesis
  proof cases
    case 1
    with start show ?thesis by (auto simp: thirdOfSlowRun_def)
  next
    case 2
    with start show ?thesis by (auto simp: thirdOfSlowRun_def numeral_2_eq_2)
  next
    case 3
    have "slow ss a" "slow ss (a + 1)" "slow ss (a + 2)"
      using run assms(3) 3 by simp_all
    moreover have "a + 2 = 2 \<or> \<not> slow ss (a + 2 - 3)"
      using start by (cases "a = 0") (simp_all add: numeral_3_eq_3)
    ultimately show ?thesis using 3 by (simp add: thirdOfSlowRun_def)
  next
    case 4
    then have "slow ss (k - 3)" "k \<noteq> 2" using run [of "k - 3"] assms(3) by simp_all
    with 4 show ?thesis by (simp add: thirdOfSlowRun_def)
  qed
qed

lemma filter_eq_upt: "filter (\<lambda>k. k = c) [0..<n] = (if c < n then [c] else [])"
  by (induction n) auto

lemma slowPass_in_run:
  assumes "maximalSlowRun ss a b"
  shows "filter (\<lambda>k. a \<le> k \<and> k \<le> b) (filter (thirdOfSlowRun ss) [0..<length ss])
           = (if a + 2 \<le> b then [a + 2] else [])"
proof -
  from assms have b: "b < length ss" by (simp add: maximalSlowRun_def)
  have "filter (\<lambda>k. a \<le> k \<and> k \<le> b) (filter (thirdOfSlowRun ss) [0..<length ss])
          = filter (\<lambda>k. k = a + 2 \<and> a + 2 \<le> b) [0..<length ss]"
    unfolding filter_filter
    by (rule filter_cong [OF refl]) (use thirdOfSlowRun_in_run [OF assms] in auto)
  also have "\<dots> = (if a + 2 \<le> b then [a + 2] else [])"
    using b by (simp add: filter_eq_upt)
  finally show ?thesis .
qed

lemma slowWarnings_eq:
  "filter (\<lambda>w. type_warning w = SlowSequence) (calculateFlowWarnings songIds songs)
     = map slowSequenceWarning
         (filter (thirdOfSlowRun (resolveSongs songIds songs))
            [0..<length (resolveSongs songIds songs)])"
  by (simp add: calculateFlowWarnings_eq filter_slow_pairPass filter_slow_slowPass)

lemma slowWarnings_in_run:
  assumes "maximalSlowRun (resolveSongs songIds songs) a b"
  shows "filter (\<lambda>w. type_warning w = SlowSequence \<and> a \<le> songIndex w \<and> songIndex w \<le> b)
           (calculateFlowWarnings songIds songs)
         = (if a + 2 \<le> b then [slowSequenceWarning (a + 2)] else [])"
proof -
  let ?ss = "resolveSongs songIds songs"
  have "filter (\<lambda>w. type_warning w = SlowSequence \<and> a \<le> songIndex w \<and> songIndex w \<le> b)
           (calculateFlowWarnings songIds songs)
        = filter (\<lambda>w. a \<le> songIndex w \<and> songIndex w \<le> b)
            (filter (\<lambda>w. type_warning w = SlowSequence) (calculateFlowWarnings songIds songs))"
    by (simp add: conj_commute)
  also have "\<dots> = map slowSequenceWarning
      (filter (\<lambda>k. a \<le> k \<and> k \<le> b) (filter (thirdOfSlowRun ?ss) [0..<length ?ss]))"
    unfolding slowWarnings_eq by (simp add: filter_map comp_def slowSequenceWarning_def)
  also have "\<dots> = (if a + 2 \<le> b then [slowSequenceWarning (a + 2)] else [])"
    unfolding slowPass_in_run [OF assms] by simp
  finally show ?thesis .
qed

lemma slow_examples:
  "(map bpm ss = [80, 85, 70, 95] \<longrightarrow> filter (thirdOfSlowRun ss) [0..<length ss] = [2])
   \<and> (map bpm ss = [80, 85, 70, 60, 50] \<longrightarrow> filter (thirdOfSlowRun ss) [0..<length ss] = [2])
   \<and> (map bpm ss = [80, 95, 80, 85] \<longrightarrow> filter (thirdOfSlowRun ss) [0..<length ss] = [])"
  by (auto simp: thirdOfSlowRun_def slow_def upt_conv_Cons)

lemma pairPass_sorted: "sorted_wrt pairwiseOrder (concat (map (pairWarnings ss) [a..<b]))"
proof (rule sorted_wrt_concat_upt)
  show "sorted_wrt pairwiseOrder (pairWarnings ss i)" for i
    by (simp add: pairWarnings_def pairwiseOrder_def keyClashWarning_def energyDropWarning_def)
  show "pairwiseOrder x y"
    if "i < j" "x \<in> set (pairWarnings ss i)" "y \<in> set (pairWarnings ss j)" for i j x y
    using that pairWarnings_member [of x ss i] pairWarnings_member [of y ss j]
    by (simp add: pairwiseOrder_def)
qed

lemma slowPass_sorted:
  "sorted_wrt (\<lambda>v w. songIndex v < songIndex w) (map slowSequenceWarning (filter P [a..<b]))"
  by (simp add: sorted_wrt_map slowSequenceWarning_def sorted_wrt_filter)

lemma pairwise_eq:
  "filter (\<lambda>w. type_warning w \<noteq> SlowSequence) (calculateFlowWarnings songIds songs)
     = concat (map (pairWarnings (resolveSongs songIds songs)) [1..<length (resolveSongs songIds songs)])"
  by (simp add: calculateFlowWarnings_eq filter_notslow_pairPass filter_notslow_slowPass)

lemma warnings_member:
  assumes "w \<in> set (calculateFlowWarnings songIds songs)"
  shows "1 \<le> songIndex w \<and> songIndex w < length (resolveSongs songIds songs)
         \<and> (type_warning w = SlowSequence \<longrightarrow> 2 \<le> songIndex w)"
proof -
  let ?ss = "resolveSongs songIds songs"
  from assms consider
    "w \<in> set (concat (map (pairWarnings ?ss) [1..<length ?ss]))"
    | "w \<in> set (map slowSequenceWarning (filter (thirdOfSlowRun ?ss) [0..<length ?ss]))"
    unfolding calculateFlowWarnings_eq by auto
  then show ?thesis
  proof cases
    case 1
    from pairPass_member [OF 1] show ?thesis by simp
  next
    case 2
    from slowPass_member [OF 2] show ?thesis by simp
  qed
qed

lemma warnings_at:
  assumes "1 \<le> i" "i < length (resolveSongs songIds songs)"
  shows "filter (\<lambda>w. songIndex w = i)
           (filter (\<lambda>w. type_warning w \<noteq> SlowSequence) (calculateFlowWarnings songIds songs))
         = pairWarnings (resolveSongs songIds songs) i"
  unfolding pairwise_eq using assms by (rule pairPass_at)

lemma resolveSongs_Nil: "resolveSongs [] songs = []"
  by (simp add: resolveSongs_def)

lemma resolveSongs_Cons:
  "resolveSongs (i # songIds) songs =
     (case find (\<lambda>s. id_song s = i) songs of
        None \<Rightarrow> resolveSongs songIds songs
      | Some s \<Rightarrow> s # resolveSongs songIds songs)"
  by (simp add: resolveSongs_def split: option.split)

lemma resolveSongs_append:
  "resolveSongs (xs @ ys) songs = resolveSongs xs songs @ resolveSongs ys songs"
  by (simp add: resolveSongs_def)

lemma find_missing: "x \<notin> id_song ` set songs \<Longrightarrow> find (\<lambda>s. id_song s = x) songs = None"
  by (auto simp: find_None_iff)

lemma resolveSongs_missing:
  "x \<notin> id_song ` set songs \<Longrightarrow> resolveSongs (xs @ x # ys) songs = resolveSongs (xs @ ys) songs"
  by (simp add: resolveSongs_append resolveSongs_Cons find_missing)

lemma resolveSongs_member:
  "s \<in> set (resolveSongs songIds songs) \<Longrightarrow> s \<in> set songs \<and> id_song s \<in> set songIds"
proof (induction songIds)
  case Nil
  then show ?case by (simp add: resolveSongs_Nil)
next
  case (Cons i songIds)
  then show ?case
    by (auto simp: resolveSongs_Cons find_Some_iff split: option.splits)
qed

lemma resolveSongs_ids:
  "map id_song (resolveSongs songIds songs) = filter (\<lambda>i. i \<in> id_song ` set songs) songIds"
proof (induction songIds)
  case Nil
  show ?case by (simp add: resolveSongs_Nil)
next
  case (Cons i songIds)
  show ?case
  proof (cases "find (\<lambda>s. id_song s = i) songs")
    case None
    then have "i \<notin> id_song ` set songs" by (auto simp: find_None_iff)
    with None Cons show ?thesis by (simp add: resolveSongs_Cons)
  next
    case (Some s)
    then have "id_song s = i" "s \<in> set songs"
      by (auto simp: find_Some_iff)
    then have "i \<in> id_song ` set songs" by auto
    with Some Cons \<open>id_song s = i\<close> show ?thesis by (simp add: resolveSongs_Cons)
  qed
qed

lemma calculateFlowWarnings_missing:
  "x \<notin> id_song ` set songs \<Longrightarrow>
     calculateFlowWarnings (xs @ x # ys) songs = calculateFlowWarnings (xs @ ys) songs"
  by (simp add: calculateFlowWarnings_def resolveSongs_missing)

lemma example_values:
  "map (\<lambda>w. (type_warning w, songIndex w)) (calculateFlowWarnings exampleOrdering exampleSetlist)
     = [(KeyClash, 1), (EnergyDrop, 1), (KeyClash, 2), (EnergyDrop, 3), (SlowSequence, 2)]"
  by code_simp

lemma example_missing: "''X'' \<notin> id_song ` set exampleSetlist"
  by (simp add: exampleSetlist_def exampleSong_def)

lemma energyDrop_at:
  assumes "1 \<le> i" "i < length (resolveSongs songIds songs)"
  shows "filter (\<lambda>w. type_warning w = EnergyDrop \<and> songIndex w = i)
           (calculateFlowWarnings songIds songs)
         = (if energyLevel (resolveSongs songIds songs ! (i - 1))
                 - energyLevel (resolveSongs songIds songs ! i) > 2
            then [energyDropWarning i (resolveSongs songIds songs ! (i - 1))
                    (resolveSongs songIds songs ! i)]
            else [])"
proof -
  let ?ss = "resolveSongs songIds songs"
  let ?ws = "calculateFlowWarnings songIds songs"
  have "filter (\<lambda>w. type_warning w = EnergyDrop \<and> songIndex w = i) ?ws
      = filter (\<lambda>w. type_warning w = EnergyDrop)
          (filter (\<lambda>w. songIndex w = i) (filter (\<lambda>w. type_warning w \<noteq> SlowSequence) ?ws))"
    by (auto intro: filter_cong)
  also have "\<dots> = filter (\<lambda>w. type_warning w = EnergyDrop) (pairWarnings ?ss i)"
    unfolding warnings_at [OF assms] ..
  also have "\<dots> = (if energyLevel (?ss ! (i - 1)) - energyLevel (?ss ! i) > 2
            then [energyDropWarning i (?ss ! (i - 1)) (?ss ! i)] else [])"
    by (simp add: pairWarnings_def keyClashWarning_def energyDropWarning_def)
  finally show ?thesis .
qed

lemma resolveSongs_three:
  assumes "id_song sb \<noteq> id_song sa" "id_song sc \<noteq> id_song sa" "id_song sc \<noteq> id_song sb"
    and "x \<notin> {id_song sa, id_song sb, id_song sc}"
  shows "resolveSongs [id_song sa, x, id_song sb, id_song sc] [sa, sb, sc] = [sa, sb, sc]"
  using assms by (auto simp add: resolveSongs_def)

section \<open>The slow-sequence pass\<close>

text \<open>
  Claim C1. The slow-sequence warnings of \<open>calculateFlowWarnings\<close> are, in order, the
  warnings at the positions of the resolved sequence that are the third song of a maximal
  run of slow songs (tempo below 90). So every maximal run of three or more slow songs
  has exactly one warning inside it, at its third song, and a run of one or two songs has
  none; at a song that is not slow the loop goes on with the counter 0. For the tempos 80, 85, 70, 95 and
  80, 85, 70, 60, 50 there is one warning, at position 2, and for 80, 95, 80, 85 none.
\<close>

theorem slow_sequence_pass:
  "let ss = resolveSongs songIds songs;
       ws = calculateFlowWarnings songIds songs;
       slowWarnings = filter (\<lambda>w. type_warning w = SlowSequence) ws
   in slowWarnings = map slowSequenceWarning (filter (thirdOfSlowRun ss) [0..<length ss])
      \<and> (\<forall>a b. maximalSlowRun ss a b \<longrightarrow>
            filter (\<lambda>w. a \<le> songIndex w \<and> songIndex w \<le> b) slowWarnings
              = (if a + 2 \<le> b then [slowSequenceWarning (a + 2)] else []))
      \<and> (map bpm ss = [80, 85, 70, 95] \<longrightarrow> map songIndex slowWarnings = [2])
      \<and> (map bpm ss = [80, 85, 70, 60, 50] \<longrightarrow> map songIndex slowWarnings = [2])
      \<and> (map bpm ss = [80, 95, 80, 85] \<longrightarrow> slowWarnings = [])
      \<and> (\<forall>i slowCount warnings. i < length ss \<and> 90 \<le> bpm (ss ! i) \<longrightarrow>
            slowLoop ss i slowCount warnings = slowLoop ss (i + 1) 0 warnings)"
proof -
  let ?ss = "resolveSongs songIds songs"
  let ?ws = "calculateFlowWarnings songIds songs"
  let ?slow = "filter (\<lambda>w. type_warning w = SlowSequence) ?ws"
  have runs: "filter (\<lambda>w. a \<le> songIndex w \<and> songIndex w \<le> b) ?slow
      = (if a + 2 \<le> b then [slowSequenceWarning (a + 2)] else [])"
    if "maximalSlowRun ?ss a b" for a b
    using slowWarnings_in_run [OF that] by (simp add: conj_commute conj_left_commute)
  have ex1: "map songIndex ?slow = [2]" if "map bpm ?ss = [80, 85, 70, 95]"
    using that slow_examples [of ?ss] by (simp add: slowWarnings_eq slowSequenceWarning_def)
  have ex2: "map songIndex ?slow = [2]" if "map bpm ?ss = [80, 85, 70, 60, 50]"
    using that slow_examples [of ?ss] by (simp add: slowWarnings_eq slowSequenceWarning_def)
  have ex3: "?slow = []" if "map bpm ?ss = [80, 95, 80, 85]"
    using that slow_examples [of ?ss] by (simp add: slowWarnings_eq)
  have reset: "slowLoop ?ss i slowCount warnings = slowLoop ?ss (i + 1) 0 warnings"
    if "i < length ?ss \<and> 90 \<le> bpm (?ss ! i)" for i slowCount warnings
    using that by (subst slowLoop.simps) simp
  show ?thesis
    unfolding Let_def using slowWarnings_eq [of songIds songs] runs ex1 ex2 ex3 reset by blast
qed

theorem slow_sequence_pass_witness:
  "map bpm (resolveSongs (exampleIds 4) (exampleCatalog [80, 85, 70, 95])) = [80, 85, 70, 95]
   \<and> maximalSlowRun (resolveSongs (exampleIds 4) (exampleCatalog [80, 85, 70, 95])) 0 2
   \<and> map songIndex (filter (\<lambda>w. type_warning w = SlowSequence)
        (calculateFlowWarnings (exampleIds 4) (exampleCatalog [80, 85, 70, 95]))) = [2]
   \<and> filter (\<lambda>w. 0 \<le> songIndex w \<and> songIndex w \<le> 2)
        (filter (\<lambda>w. type_warning w = SlowSequence)
           (calculateFlowWarnings (exampleIds 4) (exampleCatalog [80, 85, 70, 95])))
      = [slowSequenceWarning 2]
   \<and> map bpm (resolveSongs (exampleIds 5) (exampleCatalog [80, 85, 70, 60, 50]))
      = [80, 85, 70, 60, 50]
   \<and> map songIndex (filter (\<lambda>w. type_warning w = SlowSequence)
        (calculateFlowWarnings (exampleIds 5) (exampleCatalog [80, 85, 70, 60, 50]))) = [2]
   \<and> map bpm (resolveSongs (exampleIds 4) (exampleCatalog [80, 95, 80, 85])) = [80, 95, 80, 85]
   \<and> filter (\<lambda>w. type_warning w = SlowSequence)
        (calculateFlowWarnings (exampleIds 4) (exampleCatalog [80, 95, 80, 85])) = []
   \<and> 3 < length (resolveSongs (exampleIds 4) (exampleCatalog [80, 85, 70, 95]))
   \<and> 90 \<le> bpm (resolveSongs (exampleIds 4) (exampleCatalog [80, 85, 70, 95]) ! 3)
   \<and> slowLoop (resolveSongs (exampleIds 4) (exampleCatalog [80, 85, 70, 95])) 3 3
        [slowSequenceWarning 2]
      = slowLoop (resolveSongs (exampleIds 4) (exampleCatalog [80, 85, 70, 95])) (3 + 1) 0
          [slowSequenceWarning 2]"
proof -
  have h1: "map bpm (resolveSongs (exampleIds 4) (exampleCatalog [80, 85, 70, 95]))
      = [80, 85, 70, 95]"
    by code_simp
  have r1: "maximalSlowRun (resolveSongs (exampleIds 4) (exampleCatalog [80, 85, 70, 95])) 0 2"
    by code_simp
  have h2: "map bpm (resolveSongs (exampleIds 5) (exampleCatalog [80, 85, 70, 60, 50]))
      = [80, 85, 70, 60, 50]"
    by code_simp
  have h3: "map bpm (resolveSongs (exampleIds 4) (exampleCatalog [80, 95, 80, 85]))
      = [80, 95, 80, 85]"
    by code_simp
  note t1 = slow_sequence_pass [of "exampleIds 4" "exampleCatalog [80, 85, 70, 95]", unfolded Let_def]
  note t2 = slow_sequence_pass [of "exampleIds 5" "exampleCatalog [80, 85, 70, 60, 50]", unfolded Let_def]
  note t3 = slow_sequence_pass [of "exampleIds 4" "exampleCatalog [80, 95, 80, 85]", unfolded Let_def]
  from t1 h1 have c1: "map songIndex (filter (\<lambda>w. type_warning w = SlowSequence)
        (calculateFlowWarnings (exampleIds 4) (exampleCatalog [80, 85, 70, 95]))) = [2]"
    by blast
  from t1 r1 have c1r: "filter (\<lambda>w. 0 \<le> songIndex w \<and> songIndex w \<le> 2)
        (filter (\<lambda>w. type_warning w = SlowSequence)
           (calculateFlowWarnings (exampleIds 4) (exampleCatalog [80, 85, 70, 95])))
      = (if (0::nat) + 2 \<le> 2 then [slowSequenceWarning (0 + 2)] else [])"
    by blast
  from t2 h2 have c2: "map songIndex (filter (\<lambda>w. type_warning w = SlowSequence)
        (calculateFlowWarnings (exampleIds 5) (exampleCatalog [80, 85, 70, 60, 50]))) = [2]"
    by blast
  from t3 h3 have c3: "filter (\<lambda>w. type_warning w = SlowSequence)
        (calculateFlowWarnings (exampleIds 4) (exampleCatalog [80, 95, 80, 85])) = []"
    by blast
  from c1r have c1r': "filter (\<lambda>w. 0 \<le> songIndex w \<and> songIndex w \<le> 2)
        (filter (\<lambda>w. type_warning w = SlowSequence)
           (calculateFlowWarnings (exampleIds 4) (exampleCatalog [80, 85, 70, 95])))
      = [slowSequenceWarning 2]"
    by (simp add: numeral_2_eq_2)
  have fast: "3 < length (resolveSongs (exampleIds 4) (exampleCatalog [80, 85, 70, 95]))"
    "90 \<le> bpm (resolveSongs (exampleIds 4) (exampleCatalog [80, 85, 70, 95]) ! 3)"
    by code_simp+
  with t1 have c4: "slowLoop (resolveSongs (exampleIds 4) (exampleCatalog [80, 85, 70, 95])) 3 3
        [slowSequenceWarning 2]
      = slowLoop (resolveSongs (exampleIds 4) (exampleCatalog [80, 85, 70, 95])) (3 + 1) 0
          [slowSequenceWarning 2]"
    by blast
  from h1 r1 c1 c1r' h2 c2 h3 c3 fast c4 show ?thesis by (intro conjI)
qed

section \<open>Resolution of the ordering\<close>

text \<open>
  Claim C4. \<open>calculateFlowWarnings\<close> works on the resolved sequence: the ids of the resolved
  songs are the ids of the ordering that occur in the catalog, in the order of the
  ordering, and each resolved song is a song of the catalog. An id with no song in the
  catalog is dropped, and the result is the same as without it; the function is total, so
  a stale id is no error. Every position of a warning is an index of the resolved
  sequence, and the pairwise warnings at position \<open>i\<close> are those of the resolved songs
  \<open>i - 1\<close> and \<open>i\<close>. For a catalog of three songs A, B, C with different ids and the
  ordering A, X, B, C with X not in the catalog, the resolved sequence is A, B, C, the
  warnings between B and C are at position 2 and no warning is at position 3.
\<close>

theorem stale_ids_dropped:
  "let ss = resolveSongs songIds songs;
       ws = calculateFlowWarnings songIds songs
   in map id_song ss = filter (\<lambda>i. i \<in> id_song ` set songs) songIds
      \<and> set ss \<subseteq> set songs
      \<and> (\<forall>x xs ys. x \<notin> id_song ` set songs \<longrightarrow>
            resolveSongs (xs @ x # ys) songs = resolveSongs (xs @ ys) songs
            \<and> calculateFlowWarnings (xs @ x # ys) songs = calculateFlowWarnings (xs @ ys) songs)
      \<and> (\<forall>w\<in>set ws. songIndex w < length ss)
      \<and> (\<forall>i. 1 \<le> i \<and> i < length ss \<longrightarrow>
            filter (\<lambda>w. type_warning w \<noteq> SlowSequence \<and> songIndex w = i) ws
              = pairWarnings ss i)
      \<and> (\<forall>sa sb sc x.
            id_song sb \<noteq> id_song sa \<and> id_song sc \<noteq> id_song sa \<and> id_song sc \<noteq> id_song sb
            \<and> x \<notin> {id_song sa, id_song sb, id_song sc} \<longrightarrow>
            resolveSongs [id_song sa, x, id_song sb, id_song sc] [sa, sb, sc] = [sa, sb, sc]
            \<and> filter (\<lambda>w. type_warning w \<noteq> SlowSequence \<and> songIndex w = 2)
                (calculateFlowWarnings [id_song sa, x, id_song sb, id_song sc] [sa, sb, sc])
              = (if areKeysClashing (musicalKey sb) (keyMode sb) (musicalKey sc) (keyMode sc)
                 then [keyClashWarning 2 sb sc] else [])
                @ (if energyLevel sb - energyLevel sc > 2
                   then [energyDropWarning 2 sb sc] else [])
            \<and> filter (\<lambda>w. songIndex w = 3)
                (calculateFlowWarnings [id_song sa, x, id_song sb, id_song sc] [sa, sb, sc]) = [])"
proof -
  let ?ss = "resolveSongs songIds songs"
  let ?ws = "calculateFlowWarnings songIds songs"
  have at: "filter (\<lambda>w. type_warning w \<noteq> SlowSequence \<and> songIndex w = i)
      (calculateFlowWarnings ids cat) = pairWarnings (resolveSongs ids cat) i"
    if "1 \<le> i" "i < length (resolveSongs ids cat)" for i ids cat
  proof -
    have "filter (\<lambda>w. type_warning w \<noteq> SlowSequence \<and> songIndex w = i)
        (calculateFlowWarnings ids cat)
      = filter (\<lambda>w. songIndex w = i)
          (filter (\<lambda>w. type_warning w \<noteq> SlowSequence) (calculateFlowWarnings ids cat))"
      by (auto intro: filter_cong)
    then show ?thesis unfolding warnings_at [OF that] .
  qed
  have sub: "set ?ss \<subseteq> set songs"
    using resolveSongs_member [of _ songIds songs] by blast
  have bound: "songIndex w < length ?ss" if "w \<in> set ?ws" for w
    using warnings_member [OF that] by simp
  have three: "resolveSongs [id_song sa, x, id_song sb, id_song sc] [sa, sb, sc] = [sa, sb, sc]
      \<and> filter (\<lambda>w. type_warning w \<noteq> SlowSequence \<and> songIndex w = 2)
          (calculateFlowWarnings [id_song sa, x, id_song sb, id_song sc] [sa, sb, sc])
        = (if areKeysClashing (musicalKey sb) (keyMode sb) (musicalKey sc) (keyMode sc)
           then [keyClashWarning 2 sb sc] else [])
          @ (if energyLevel sb - energyLevel sc > 2
             then [energyDropWarning 2 sb sc] else [])
      \<and> filter (\<lambda>w. songIndex w = 3)
          (calculateFlowWarnings [id_song sa, x, id_song sb, id_song sc] [sa, sb, sc]) = []"
    if "id_song sb \<noteq> id_song sa \<and> id_song sc \<noteq> id_song sa \<and> id_song sc \<noteq> id_song sb
        \<and> x \<notin> {id_song sa, id_song sb, id_song sc}" for sa sb sc x
  proof -
    let ?ids = "[id_song sa, x, id_song sb, id_song sc]"
    let ?cat = "[sa, sb, sc]"
    from that have res: "resolveSongs ?ids ?cat = [sa, sb, sc]"
      by (intro resolveSongs_three) simp_all
    have "filter (\<lambda>w. type_warning w \<noteq> SlowSequence \<and> songIndex w = 2)
        (calculateFlowWarnings ?ids ?cat) = pairWarnings (resolveSongs ?ids ?cat) 2"
      by (rule at) (simp_all add: res)
    then have two: "filter (\<lambda>w. type_warning w \<noteq> SlowSequence \<and> songIndex w = 2)
        (calculateFlowWarnings ?ids ?cat)
      = (if areKeysClashing (musicalKey sb) (keyMode sb) (musicalKey sc) (keyMode sc)
         then [keyClashWarning 2 sb sc] else [])
        @ (if energyLevel sb - energyLevel sc > 2
           then [energyDropWarning 2 sb sc] else [])"
      by (simp add: res pairWarnings_def)
    have "songIndex w \<noteq> 3" if "w \<in> set (calculateFlowWarnings ?ids ?cat)" for w
      using warnings_member [OF that] by (simp add: res)
    then have "filter (\<lambda>w. songIndex w = 3) (calculateFlowWarnings ?ids ?cat) = []"
      by (simp add: filter_empty_conv)
    with res two show ?thesis by simp
  qed
  show ?thesis
    unfolding Let_def
    using resolveSongs_ids [of songIds songs] sub resolveSongs_missing [of _ songs]
      calculateFlowWarnings_missing [of _ songs] bound at [of _ songIds songs] three
    by blast
qed

theorem stale_ids_dropped_witness:
  "''X'' \<notin> id_song ` set exampleSetlist
   \<and> resolveSongs ([''A''] @ ''X'' # [''B'', ''C'', ''D'']) exampleSetlist
       = resolveSongs ([''A''] @ [''B'', ''C'', ''D'']) exampleSetlist
   \<and> calculateFlowWarnings ([''A''] @ ''X'' # [''B'', ''C'', ''D'']) exampleSetlist
       = calculateFlowWarnings ([''A''] @ [''B'', ''C'', ''D'']) exampleSetlist
   \<and> map id_song (resolveSongs exampleOrdering exampleSetlist) = [''A'', ''B'', ''C'', ''D'']
   \<and> resolveSongs [''A'', ''X'', ''B'', ''C''] (take 3 exampleSetlist) = take 3 exampleSetlist
   \<and> map (\<lambda>w. (type_warning w, songIndex w))
        (filter (\<lambda>w. type_warning w \<noteq> SlowSequence \<and> songIndex w = 2)
           (calculateFlowWarnings [''A'', ''X'', ''B'', ''C''] (take 3 exampleSetlist)))
       = [(KeyClash, 2)]
   \<and> filter (\<lambda>w. songIndex w = 3)
        (calculateFlowWarnings [''A'', ''X'', ''B'', ''C''] (take 3 exampleSetlist)) = []"
proof -
  let ?sa = "exampleSong ''A'' 60 KeyC Major 5"
  let ?sb = "exampleSong ''B'' 60 KeyFs Major 1"
  let ?sc = "exampleSong ''C'' 60 KeyG Major 5"
  have ids: "id_song ?sa = ''A''" "id_song ?sb = ''B''" "id_song ?sc = ''C''"
    by (simp_all add: exampleSong_def)
  have tk: "take 3 exampleSetlist = [?sa, ?sb, ?sc]"
    by (simp add: exampleSetlist_def)
  note t = stale_ids_dropped [of exampleOrdering exampleSetlist, unfolded Let_def]
  from t have a: "map id_song (resolveSongs exampleOrdering exampleSetlist)
      = filter (\<lambda>i. i \<in> id_song ` set exampleSetlist) exampleOrdering"
    by blast
  have a': "map id_song (resolveSongs exampleOrdering exampleSetlist) = [''A'', ''B'', ''C'', ''D'']"
    unfolding a by (simp add: exampleOrdering_def exampleSetlist_def exampleSong_def)
  from t example_missing
  have b: "resolveSongs ([''A''] @ ''X'' # [''B'', ''C'', ''D'']) exampleSetlist
       = resolveSongs ([''A''] @ [''B'', ''C'', ''D'']) exampleSetlist
     \<and> calculateFlowWarnings ([''A''] @ ''X'' # [''B'', ''C'', ''D'']) exampleSetlist
       = calculateFlowWarnings ([''A''] @ [''B'', ''C'', ''D'']) exampleSetlist"
    by blast
  have hyp: "id_song ?sb \<noteq> id_song ?sa \<and> id_song ?sc \<noteq> id_song ?sa \<and> id_song ?sc \<noteq> id_song ?sb
      \<and> ''X'' \<notin> {id_song ?sa, id_song ?sb, id_song ?sc}"
    by (simp add: ids)
  from t hyp
  have c: "resolveSongs [id_song ?sa, ''X'', id_song ?sb, id_song ?sc] [?sa, ?sb, ?sc]
        = [?sa, ?sb, ?sc]
      \<and> filter (\<lambda>w. type_warning w \<noteq> SlowSequence \<and> songIndex w = 2)
          (calculateFlowWarnings [id_song ?sa, ''X'', id_song ?sb, id_song ?sc] [?sa, ?sb, ?sc])
        = (if areKeysClashing (musicalKey ?sb) (keyMode ?sb) (musicalKey ?sc) (keyMode ?sc)
           then [keyClashWarning 2 ?sb ?sc] else [])
          @ (if energyLevel ?sb - energyLevel ?sc > 2
             then [energyDropWarning 2 ?sb ?sc] else [])
      \<and> filter (\<lambda>w. songIndex w = 3)
          (calculateFlowWarnings [id_song ?sa, ''X'', id_song ?sb, id_song ?sc] [?sa, ?sb, ?sc])
        = []"
    by blast
  have clash: "areKeysClashing (musicalKey ?sb) (keyMode ?sb) (musicalKey ?sc) (keyMode ?sc)"
    by (simp add: exampleSong_def areKeysClashing_def)
  have nodrop: "\<not> energyLevel ?sb - energyLevel ?sc > 2"
    by (simp add: exampleSong_def)
  from c have c1: "resolveSongs [''A'', ''X'', ''B'', ''C''] (take 3 exampleSetlist)
      = take 3 exampleSetlist"
    unfolding ids tk by blast
  from c have c2: "filter (\<lambda>w. type_warning w \<noteq> SlowSequence \<and> songIndex w = 2)
      (calculateFlowWarnings [''A'', ''X'', ''B'', ''C''] (take 3 exampleSetlist))
      = [keyClashWarning 2 ?sb ?sc]"
    unfolding ids tk using clash nodrop by simp
  from c have c3: "filter (\<lambda>w. songIndex w = 3)
      (calculateFlowWarnings [''A'', ''X'', ''B'', ''C''] (take 3 exampleSetlist)) = []"
    unfolding ids tk by blast
  have c2': "map (\<lambda>w. (type_warning w, songIndex w))
        (filter (\<lambda>w. type_warning w \<noteq> SlowSequence \<and> songIndex w = 2)
           (calculateFlowWarnings [''A'', ''X'', ''B'', ''C''] (take 3 exampleSetlist)))
       = [(KeyClash, 2)]"
    unfolding c2 by (simp add: keyClashWarning_def)
  from example_missing b a' c1 c2' c3 show ?thesis by (intro conjI) simp_all
qed

section \<open>Order of the warnings\<close>

text \<open>
  Claim C5. The warnings are those of two passes, one after the other: first the key-clash
  and energy-drop warnings, in ascending order of position and, at one pair, the key clash
  before the energy drop; then the slow-sequence warnings, in ascending order of position.
  The two parts are not merged by position: in the example, the slow-sequence warning at
  position 2 comes after the energy-drop warning at position 3.
\<close>

theorem warnings_in_two_passes:
  "let ss = resolveSongs songIds songs;
       ws = calculateFlowWarnings songIds songs;
       pairwise = filter (\<lambda>w. type_warning w \<noteq> SlowSequence) ws;
       slowSeq = filter (\<lambda>w. type_warning w = SlowSequence) ws
   in ws = pairwise @ slowSeq
      \<and> pairwise = concat (map (pairWarnings ss) [1..<length ss])
      \<and> sorted_wrt pairwiseOrder pairwise
      \<and> sorted_wrt (\<lambda>v w. songIndex v < songIndex w) slowSeq
      \<and> map (\<lambda>w. (type_warning w, songIndex w))
            (calculateFlowWarnings exampleOrdering exampleSetlist)
          = [(KeyClash, 1), (EnergyDrop, 1), (KeyClash, 2), (EnergyDrop, 3), (SlowSequence, 2)]"
proof -
  let ?ss = "resolveSongs songIds songs"
  let ?ws = "calculateFlowWarnings songIds songs"
  have "?ws = filter (\<lambda>w. type_warning w \<noteq> SlowSequence) ?ws
            @ filter (\<lambda>w. type_warning w = SlowSequence) ?ws"
    unfolding pairwise_eq slowWarnings_eq by (rule calculateFlowWarnings_eq)
  moreover have "sorted_wrt pairwiseOrder (filter (\<lambda>w. type_warning w \<noteq> SlowSequence) ?ws)"
    unfolding pairwise_eq by (rule pairPass_sorted)
  moreover have "sorted_wrt (\<lambda>v w. songIndex v < songIndex w)
      (filter (\<lambda>w. type_warning w = SlowSequence) ?ws)"
    unfolding slowWarnings_eq by (rule slowPass_sorted)
  ultimately show ?thesis
    unfolding Let_def using pairwise_eq [of songIds songs] example_values by blast
qed

theorem warnings_in_two_passes_witness:
  "calculateFlowWarnings exampleOrdering exampleSetlist
     = filter (\<lambda>w. type_warning w \<noteq> SlowSequence)
         (calculateFlowWarnings exampleOrdering exampleSetlist)
       @ filter (\<lambda>w. type_warning w = SlowSequence)
           (calculateFlowWarnings exampleOrdering exampleSetlist)
   \<and> map (\<lambda>w. (type_warning w, songIndex w))
        (filter (\<lambda>w. type_warning w \<noteq> SlowSequence)
           (calculateFlowWarnings exampleOrdering exampleSetlist))
      = [(KeyClash, 1), (EnergyDrop, 1), (KeyClash, 2), (EnergyDrop, 3)]
   \<and> map (\<lambda>w. (type_warning w, songIndex w))
        (filter (\<lambda>w. type_warning w = SlowSequence)
           (calculateFlowWarnings exampleOrdering exampleSetlist))
      = [(SlowSequence, 2)]"
proof -
  note t = warnings_in_two_passes [of exampleOrdering exampleSetlist, unfolded Let_def]
  have p: "map (\<lambda>w. (type_warning w, songIndex w))
        (filter (\<lambda>w. type_warning w \<noteq> SlowSequence)
           (calculateFlowWarnings exampleOrdering exampleSetlist))
      = [(KeyClash, 1), (EnergyDrop, 1), (KeyClash, 2), (EnergyDrop, 3)]"
    by code_simp
  have q: "map (\<lambda>w. (type_warning w, songIndex w))
        (filter (\<lambda>w. type_warning w = SlowSequence)
           (calculateFlowWarnings exampleOrdering exampleSetlist))
      = [(SlowSequence, 2)]"
    by code_simp
  from t p q show ?thesis by blast
qed

section \<open>Energy drops\<close>

text \<open>
  Claim C6. For every adjacent pair of the resolved sequence, at positions \<open>i - 1\<close> and
  \<open>i\<close>, there is an energy-drop warning at position \<open>i\<close> exactly when the energy level of
  the earlier song minus that of the later song is above 2, and then there is one such
  warning; a drop of 2 or less and an increase give none. Every energy-drop warning
  of the result is the warning of such a pair. With energy levels from 1 to 5, the drops
  that give a warning are the drops of 3 and of 4.
\<close>

theorem energy_drop_warnings:
  "let ss = resolveSongs songIds songs;
       ws = calculateFlowWarnings songIds songs
   in (\<forall>i. 1 \<le> i \<and> i < length ss \<longrightarrow>
         filter (\<lambda>w. type_warning w = EnergyDrop \<and> songIndex w = i) ws
           = (if energyLevel (ss ! (i - 1)) - energyLevel (ss ! i) > 2
              then [energyDropWarning i (ss ! (i - 1)) (ss ! i)] else []))
      \<and> (\<forall>w\<in>set ws. type_warning w = EnergyDrop \<longrightarrow>
            1 \<le> songIndex w \<and> songIndex w < length ss
            \<and> energyLevel (ss ! (songIndex w - 1)) - energyLevel (ss ! songIndex w) > 2)
      \<and> (\<forall>i. 1 \<le> i \<and> i < length ss
              \<and> 1 \<le> energyLevel (ss ! (i - 1)) \<and> energyLevel (ss ! (i - 1)) \<le> 5
              \<and> 1 \<le> energyLevel (ss ! i) \<and> energyLevel (ss ! i) \<le> 5 \<longrightarrow>
            (energyLevel (ss ! (i - 1)) - energyLevel (ss ! i) > 2)
              = (energyLevel (ss ! (i - 1)) - energyLevel (ss ! i) = 3
                 \<or> energyLevel (ss ! (i - 1)) - energyLevel (ss ! i) = 4))"
proof -
  let ?ss = "resolveSongs songIds songs"
  let ?ws = "calculateFlowWarnings songIds songs"
  have drop: "1 \<le> songIndex w \<and> songIndex w < length ?ss
      \<and> energyLevel (?ss ! (songIndex w - 1)) - energyLevel (?ss ! songIndex w) > 2"
    if w: "w \<in> set ?ws" and ty: "type_warning w = EnergyDrop" for w
  proof -
    from warnings_member [OF w]
    have range: "1 \<le> songIndex w" "songIndex w < length ?ss" by simp_all
    from w ty have "w \<in> set (filter (\<lambda>v. type_warning v = EnergyDrop \<and> songIndex v = songIndex w) ?ws)"
      by simp
    then have "energyLevel (?ss ! (songIndex w - 1)) - energyLevel (?ss ! songIndex w) > 2"
      unfolding energyDrop_at [OF range] by (simp split: if_splits)
    with range show ?thesis by simp
  qed
  have levels: "(energyLevel (?ss ! (i - 1)) - energyLevel (?ss ! i) > 2)
      = (energyLevel (?ss ! (i - 1)) - energyLevel (?ss ! i) = 3
         \<or> energyLevel (?ss ! (i - 1)) - energyLevel (?ss ! i) = 4)"
    if "1 \<le> energyLevel (?ss ! (i - 1)) \<and> energyLevel (?ss ! (i - 1)) \<le> 5
        \<and> 1 \<le> energyLevel (?ss ! i) \<and> energyLevel (?ss ! i) \<le> 5" for i
    using that by arith
  show ?thesis
    unfolding Let_def using energyDrop_at [of _ songIds songs] drop levels by blast
qed

theorem energy_drop_warnings_witness:
  "1 \<le> (1::nat) \<and> 1 < length (resolveSongs exampleOrdering exampleSetlist)
   \<and> map energyLevel (resolveSongs exampleOrdering exampleSetlist) = [5, 1, 5, 2]
   \<and> map (\<lambda>w. (type_warning w, songIndex w))
        (filter (\<lambda>w. type_warning w = EnergyDrop \<and> songIndex w = 1)
           (calculateFlowWarnings exampleOrdering exampleSetlist)) = [(EnergyDrop, 1)]
   \<and> filter (\<lambda>w. type_warning w = EnergyDrop \<and> songIndex w = 2)
        (calculateFlowWarnings exampleOrdering exampleSetlist) = []
   \<and> map (\<lambda>w. (type_warning w, songIndex w))
        (filter (\<lambda>w. type_warning w = EnergyDrop \<and> songIndex w = 3)
           (calculateFlowWarnings exampleOrdering exampleSetlist)) = [(EnergyDrop, 3)]
   \<and> energyLevel (resolveSongs exampleOrdering exampleSetlist ! (1 - 1))
         - energyLevel (resolveSongs exampleOrdering exampleSetlist ! 1) = 4"
proof -
  let ?ss = "resolveSongs exampleOrdering exampleSetlist"
  let ?ws = "calculateFlowWarnings exampleOrdering exampleSetlist"
  have len: "length ?ss = 4" by code_simp
  have en: "map energyLevel ?ss = [5, 1, 5, 2]" by code_simp
  then have e: "energyLevel (?ss ! 0) = 5" "energyLevel (?ss ! 1) = 1"
    "energyLevel (?ss ! 2) = 5" "energyLevel (?ss ! 3) = 2"
    using len by (metis nth_map nth_Cons_0 zero_less_numeral,
      simp_all add: list_eq_iff_nth_eq)
  note t = energy_drop_warnings [of exampleOrdering exampleSetlist, unfolded Let_def,
    THEN conjunct1, rule_format]
  have "filter (\<lambda>w. type_warning w = EnergyDrop \<and> songIndex w = 1) ?ws
      = [energyDropWarning 1 (?ss ! 0) (?ss ! 1)]"
    using t [of 1] len e by simp
  moreover have "filter (\<lambda>w. type_warning w = EnergyDrop \<and> songIndex w = 2) ?ws = []"
    using t [of 2] len e by simp
  moreover have "filter (\<lambda>w. type_warning w = EnergyDrop \<and> songIndex w = 3) ?ws
      = [energyDropWarning 3 (?ss ! 2) (?ss ! 3)]"
    using t [of 3] len e by simp
  moreover have "energyLevel (?ss ! (1 - 1)) - energyLevel (?ss ! 1) = 4"
  proof -
    note l = energy_drop_warnings [of exampleOrdering exampleSetlist, unfolded Let_def,
      THEN conjunct2, THEN conjunct2, rule_format, of 1]
    have "(energyLevel (?ss ! (1 - 1)) - energyLevel (?ss ! 1) > 2)
        = (energyLevel (?ss ! (1 - 1)) - energyLevel (?ss ! 1) = 3
           \<or> energyLevel (?ss ! (1 - 1)) - energyLevel (?ss ! 1) = 4)"
      by (rule l) (use len e in simp)
    then show ?thesis using e by simp
  qed
  ultimately show ?thesis using len en by (simp add: energyDropWarning_def)
qed

section \<open>Range of the positions\<close>

text \<open>
  Claim C10. Every warning has a position \<open>i\<close> with \<open>1 \<le> i \<le> n - 1\<close>, where \<open>n\<close> is the
  length of the resolved sequence, and a slow-sequence warning has \<open>i \<ge> 2\<close>; so a resolved
  sequence of length 0 or 1 has no warning.
\<close>

theorem warning_positions_in_range:
  "let ss = resolveSongs songIds songs;
       ws = calculateFlowWarnings songIds songs
   in (\<forall>w\<in>set ws. 1 \<le> songIndex w \<and> songIndex w \<le> length ss - 1 \<and> songIndex w < length ss
         \<and> (type_warning w = SlowSequence \<longrightarrow> 2 \<le> songIndex w))
      \<and> (length ss \<le> 1 \<longrightarrow> ws = [])"
proof -
  let ?ss = "resolveSongs songIds songs"
  let ?ws = "calculateFlowWarnings songIds songs"
  have bound: "1 \<le> songIndex w \<and> songIndex w \<le> length ?ss - 1 \<and> songIndex w < length ?ss
         \<and> (type_warning w = SlowSequence \<longrightarrow> 2 \<le> songIndex w)" if "w \<in> set ?ws" for w
    using warnings_member [OF that] by auto
  have "?ws = []" if "length ?ss \<le> 1"
  proof (cases ?ws)
    case (Cons w ws')
    then have "w \<in> set ?ws" by simp
    from warnings_member [OF this] that show ?thesis by simp
  qed simp
  with bound show ?thesis unfolding Let_def by blast
qed

theorem warning_positions_in_range_witness:
  "length (resolveSongs exampleOrdering exampleSetlist) = 4
   \<and> slowSequenceWarning 2 \<in> set (calculateFlowWarnings exampleOrdering exampleSetlist)
   \<and> 1 \<le> songIndex (slowSequenceWarning 2)
   \<and> songIndex (slowSequenceWarning 2) \<le> length (resolveSongs exampleOrdering exampleSetlist) - 1
   \<and> 2 \<le> songIndex (slowSequenceWarning 2)
   \<and> length (resolveSongs [''X'', ''B''] exampleSetlist) \<le> 1
   \<and> calculateFlowWarnings [''X'', ''B''] exampleSetlist = []"
proof -
  have len: "length (resolveSongs exampleOrdering exampleSetlist) = 4"
    by code_simp
  have mem: "slowSequenceWarning 2 \<in> set (calculateFlowWarnings exampleOrdering exampleSetlist)"
    by code_simp
  have ty: "type_warning (slowSequenceWarning 2) = SlowSequence"
    by (simp add: slowSequenceWarning_def)
  have short: "length (resolveSongs [''X'', ''B''] exampleSetlist) \<le> 1"
    by code_simp
  note t1 = warning_positions_in_range [of exampleOrdering exampleSetlist, unfolded Let_def]
  note t2 = warning_positions_in_range [of "[''X'', ''B'']" exampleSetlist, unfolded Let_def]
  from t1 mem ty have "1 \<le> songIndex (slowSequenceWarning 2)
      \<and> songIndex (slowSequenceWarning 2) \<le> length (resolveSongs exampleOrdering exampleSetlist) - 1
      \<and> 2 \<le> songIndex (slowSequenceWarning 2)"
    by blast
  moreover from t2 short have "calculateFlowWarnings [''X'', ''B''] exampleSetlist = []"
    by blast
  ultimately show ?thesis using len mem short by blast
qed

end
